theory Spec2Isabelle
  imports Main
begin

section \<open>Strings: the two library calls the session resolver relies on\<close>

text \<open>
  The resolver in \<^verbatim>\<open>App\<close> reads \<^verbatim>\<open>window.location.hash\<close> and applies
  \<^verbatim>\<open>String.prototype.includes\<close> and \<^verbatim>\<open>String.prototype.split\<close> to it. Both are
  modelled on lists of characters.

  \<^verbatim>\<open>s.includes(sep)\<close> is true when \<open>sep\<close> occurs in \<open>s\<close> at some position.
\<close>

fun includes_str :: "string \<Rightarrow> string \<Rightarrow> bool" where
  "includes_str [] sep = (sep = [])"
| "includes_str (c # cs) sep = (take (length sep) (c # cs) = sep \<or> includes_str cs sep)"

text \<open>
  \<^verbatim>\<open>s.split(sep)\<close> with a string separator and no limit scans \<open>s\<close> from the left.
  At a position where \<open>sep\<close> matches, the piece collected so far is emitted and the scan
  resumes behind the match; elsewhere the character joins the current piece. The piece
  that is open at the end of the string is emitted last, so the result of a non-empty
  separator is never the empty array. The empty separator cuts the string into its
  characters.
\<close>

function split_go :: "string \<Rightarrow> string \<Rightarrow> string \<Rightarrow> string list" where
  "split_go sep cur [] = [cur]"
| "split_go sep cur (c # cs) =
     (if sep \<noteq> [] \<and> take (length sep) (c # cs) = sep
      then cur # split_go sep [] (drop (length sep) (c # cs))
      else split_go sep (cur @ [c]) cs)"
  by pat_completeness auto
termination
  by (relation "measure (\<lambda>(sep, cur, s). length s)") auto

definition split_str :: "string \<Rightarrow> string \<Rightarrow> string list" where
  "split_str s sep = (if sep = [] then map (\<lambda>c. [c]) s else split_go sep [] s)"

text \<open>
  \<^verbatim>\<open>hash.split('session_id=')[1].split('&')[0]\<close>. Reading index 1 of an array with
  fewer than two elements gives \<^verbatim>\<open>undefined\<close>, and calling \<^verbatim>\<open>split\<close> on that throws
  a \<^verbatim>\<open>TypeError\<close>: this is the value \<open>None\<close>.
\<close>

definition sessionId_of :: "string \<Rightarrow> string option" where
  "sessionId_of hash =
     (case split_str hash ''session_id='' of
        _ # p # _ \<Rightarrow> (case split_str p ''&'' of t # _ \<Rightarrow> Some t | [] \<Rightarrow> None)
      | _ \<Rightarrow> None)"

text \<open>
  The words of the specification, for comparison with the code: the part of a string in
  front of the next occurrence of a separator (the whole string when there is none), and
  the part behind it.
\<close>

fun before_sep :: "string \<Rightarrow> string \<Rightarrow> string" where
  "before_sep sep [] = []"
| "before_sep sep (c # cs) =
     (if take (length sep) (c # cs) = sep then [] else c # before_sep sep cs)"

fun after_sep :: "string \<Rightarrow> string \<Rightarrow> string" where
  "after_sep sep [] = []"
| "after_sep sep (c # cs) =
     (if take (length sep) (c # cs) = sep then drop (length sep) (c # cs)
      else after_sep sep cs)"

text \<open>
  The token as the specification words it: what stands between \<^verbatim>\<open>session_id=\<close> and the
  next \<^verbatim>\<open>&\<close>, or the end of the string.
\<close>

definition token_stated :: "string \<Rightarrow> string" where
  "token_stated h = before_sep ''&'' (after_sep ''session_id='' h)"

text \<open>
  The same, cut at a further \<^verbatim>\<open>session_id=\<close> as well when one comes before the next
  \<^verbatim>\<open>&\<close>.
\<close>

definition token_cut :: "string \<Rightarrow> string" where
  "token_cut h =
     before_sep ''&'' (before_sep ''session_id='' (after_sep ''session_id='' h))"


section \<open>The application shell: state, browser and backend\<close>

text \<open>
  The identity the backend returns. The shell stores it as it comes and only ever tests
  it for truthiness, so \<^verbatim>\<open>null\<close> and \<^verbatim>\<open>undefined\<close> are both \<open>None\<close> and every
  identity object is \<open>Some u\<close>.
\<close>

record user_identity =
  ident :: string
  name :: string
  email :: string
  picture :: "string option"
  learning_interests :: "string list option"

type_synonym err = string

text \<open>How a promise returned by \<^verbatim>\<open>axios\<close> settles.\<close>

datatype 'a settled = Fulfilled 'a | Rejected err

text \<open>
  The three calls the shell makes: \<^verbatim>\<open>POST /auth/session\<close> with its
  \<^verbatim>\<open>session_id\<close>, \<^verbatim>\<open>GET /auth/me\<close> and \<^verbatim>\<open>POST /auth/logout\<close>.
\<close>

datatype request = PostSession string | GetMe | PostLogout

text \<open>
  What \<^verbatim>\<open>POST /auth/session\<close> is answered with when it is fulfilled:
  \<^verbatim>\<open>response.data\<close> is \<^verbatim>\<open>null\<close> or \<^verbatim>\<open>undefined\<close>, or it is a value whose
  \<^verbatim>\<open>user\<close> property can be read (an absent property reads as \<open>None\<close>).
\<close>

datatype session_body = NullBody | Body "user_identity option"

text \<open>
  The exceptions of the shell's own code: reading a property of \<^verbatim>\<open>null\<close> or
  \<^verbatim>\<open>undefined\<close>, and a history call the browser refuses.
\<close>

datatype js_error = TypeError | SecurityError

text \<open>What a \<^verbatim>\<open>catch\<close> handler receives: the reason of a rejected request, or an
  exception thrown by the handler in front of it.\<close>

datatype thrown = RequestError err | Thrown js_error

text \<open>The two \<^verbatim>\<open>console.error\<close> calls of the shell.\<close>

datatype log_entry = SessionProcessingFailed thrown | LogoutFailed err

text \<open>
  The promise of the resolver: the effect has not run yet, one of the two requests is
  outstanding, or its last handler has run.
\<close>

datatype resolver_phase = Unmounted | AwaitSession | AwaitMe | Done

text \<open>\<^verbatim>\<open>window.location\<close>: the path, the query string and the fragment (with its \<^verbatim>\<open>#\<close>).\<close>

record location =
  pathname :: string
  search :: string
  hash :: string

text \<open>
  The three \<^verbatim>\<open>useState\<close> cells of \<^verbatim>\<open>App\<close>, the browser's location and the history
  entries behind the current one, and what the shell has sent and logged so far.
\<close>

record app =
  user :: "user_identity option"
  loading :: bool
  processingAuth :: bool
  location :: location
  behind :: "location list"
  requests :: "request list"
  console :: "log_entry list"
  resolver :: resolver_phase

definition init :: "location \<Rightarrow> app" where
  "init loc = \<lparr>user = None, loading = True, processingAuth = False, location = loc,
     behind = [], requests = [], console = [], resolver = Unmounted\<rparr>"

definition setUser :: "user_identity option \<Rightarrow> app \<Rightarrow> app" where
  "setUser u st = st\<lparr>user := u\<rparr>"

definition setLoading :: "bool \<Rightarrow> app \<Rightarrow> app" where
  "setLoading b st = st\<lparr>loading := b\<rparr>"

definition setProcessingAuth :: "bool \<Rightarrow> app \<Rightarrow> app" where
  "setProcessingAuth b st = st\<lparr>processingAuth := b\<rparr>"

definition console_error :: "log_entry \<Rightarrow> app \<Rightarrow> app" where
  "console_error l st = st\<lparr>console := console st @ [l]\<rparr>"

definition axios_send :: "request \<Rightarrow> app \<Rightarrow> app" where
  "axios_send r st = st\<lparr>requests := requests st @ [r]\<rparr>"

text \<open>
  \<^verbatim>\<open>window.history.replaceState(null, '', path)\<close>, with the path the shell passes
  (\<^verbatim>\<open>window.location.pathname\<close>). The browser resolves the argument against the
  document's URL. A path that begins with two slashes is read as the name of a host, not
  as a path: the result is a URL of another origin and the call throws a
  \<^verbatim>\<open>SecurityError\<close> (the document's own host is not part of the model; the path is
  taken to name a different one). For any other path the current history entry now
  shows that path, with no query and no fragment; no entry is added and nothing is
  loaded.
\<close>

definition replaceState :: "string \<Rightarrow> app \<Rightarrow> js_error + app" where
  "replaceState path st =
     (if take 2 path = ''//'' then Inl SecurityError
      else Inr (st\<lparr>location := \<lparr>pathname = path, search = [], hash = []\<rparr>\<rparr>))"

text \<open>
  The router's \<^verbatim>\<open>navigate(to, {replace})\<close>: with \<^verbatim>\<open>replace\<close> the current entry is
  overwritten, without it the current entry moves behind the new one.
\<close>

definition navigate :: "string \<Rightarrow> bool \<Rightarrow> app \<Rightarrow> app" where
  "navigate to replace st =
     (if replace then st\<lparr>location := \<lparr>pathname = to, search = [], hash = []\<rparr>\<rparr>
      else st\<lparr>behind := location st # behind st,
              location := \<lparr>pathname = to, search = [], hash = []\<rparr>\<rparr>)"

subsection \<open>The resolver: the effect of \<^verbatim>\<open>App\<close> and the handlers of its promise\<close>

definition effect :: "app \<Rightarrow> js_error + app" where
  "effect st =
     (let h = hash (location st) in
      if h \<noteq> [] \<and> includes_str h ''session_id='' then
        (case sessionId_of h of
           None \<Rightarrow> Inl TypeError
         | Some sessionId \<Rightarrow>
             Inr ((axios_send (PostSession sessionId) (setProcessingAuth True st))
                    \<lparr>resolver := AwaitSession\<rparr>))
      else Inr ((axios_send GetMe st)\<lparr>resolver := AwaitMe\<rparr>))"

text \<open>
  The handlers of \<^verbatim>\<open>POST /auth/session\<close>: \<^verbatim>\<open>then\<close> or \<^verbatim>\<open>catch\<close>, then
  \<^verbatim>\<open>finally\<close>. The list holds the state after each call a handler makes, in order.
  The \<^verbatim>\<open>catch\<close> handler is chained behind \<^verbatim>\<open>then\<close>, so it also receives what the
  \<^verbatim>\<open>then\<close> handler throws: the \<^verbatim>\<open>TypeError\<close> of \<^verbatim>\<open>response.data.user\<close> when
  there is no \<^verbatim>\<open>response.data\<close>, in front of \<^verbatim>\<open>setUser\<close>, and the
  \<^verbatim>\<open>SecurityError\<close> of \<^verbatim>\<open>replaceState\<close>, behind it.
\<close>

definition session_catch_states :: "thrown \<Rightarrow> app \<Rightarrow> app list" where
  "session_catch_states x st =
     (let s1 = console_error (SessionProcessingFailed x) st;
          s2 = setProcessingAuth False s1;
          s3 = setLoading False s2
      in [s1, s2, s3])"

fun session_settle_states :: "session_body settled \<Rightarrow> app \<Rightarrow> app list" where
  "session_settle_states (Fulfilled NullBody) st = session_catch_states (Thrown TypeError) st"
| "session_settle_states (Fulfilled (Body u)) st =
     (let s1 = setUser u st in
      case replaceState (pathname (location s1)) s1 of
        Inl x \<Rightarrow> s1 # session_catch_states (Thrown x) s1
      | Inr s2 \<Rightarrow>
          (let s3 = setProcessingAuth False s2;
               s4 = setLoading False s3
           in [s1, s2, s3, s4]))"
| "session_settle_states (Rejected e) st = session_catch_states (RequestError e) st"

definition session_settle :: "session_body settled \<Rightarrow> app \<Rightarrow> app" where
  "session_settle r st = (last (session_settle_states r st))\<lparr>resolver := Done\<rparr>"

text \<open>
  The handlers of \<^verbatim>\<open>GET /auth/me\<close>; the payload of a fulfilled request is
  \<^verbatim>\<open>response.data\<close>.
\<close>

fun me_settle_states :: "user_identity option settled \<Rightarrow> app \<Rightarrow> app list" where
  "me_settle_states (Fulfilled u) st =
     (let s1 = setUser u st; s2 = setLoading False s1 in [s1, s2])"
| "me_settle_states (Rejected e) st =
     (let s1 = setUser None st; s2 = setLoading False s1 in [s1, s2])"

definition me_settle :: "user_identity option settled \<Rightarrow> app \<Rightarrow> app" where
  "me_settle r st = (last (me_settle_states r st))\<lparr>resolver := Done\<rparr>"

subsection \<open>Logout\<close>

text \<open>
  \<^verbatim>\<open>logout\<close> sends its request and suspends at the \<^verbatim>\<open>await\<close>; the rest of the
  \<^verbatim>\<open>try\<close> block runs when the request is fulfilled, the \<^verbatim>\<open>catch\<close> block when it is
  rejected.
\<close>

definition logout_call :: "app \<Rightarrow> app" where
  "logout_call st = axios_send PostLogout st"

fun logout_settle :: "unit settled \<Rightarrow> app \<Rightarrow> app" where
  "logout_settle (Fulfilled _) st = setUser None st"
| "logout_settle (Rejected e) st = console_error (LogoutFailed e) st"

definition logout :: "unit settled \<Rightarrow> app \<Rightarrow> app" where
  "logout r st = logout_settle r (logout_call st)"

subsection \<open>Rendering and the route guard\<close>

text \<open>
  How the router compares a location with the path of a route: letters A to Z match
  their lower-case forms, and any number of slashes may follow the path.
\<close>

definition lower_char :: "char \<Rightarrow> char" where
  "lower_char c =
     (case map_of (zip ''ABCDEFGHIJKLMNOPQRSTUVWXYZ'' ''abcdefghijklmnopqrstuvwxyz'') c of
        Some l \<Rightarrow> l
      | None \<Rightarrow> c)"

definition matches :: "string \<Rightarrow> string \<Rightarrow> bool" where
  "matches pat path =
     (let p = map lower_char path in
      take (length pat) p = map lower_char pat
      \<and> list_all (\<lambda>c. c = CHR ''/'') (drop (length pat) p))"

text \<open>
  What \<^verbatim>\<open>App\<close> returns: the loading placeholder, one of the four pages, a
  \<^verbatim>\<open>Navigate\<close> element with its target and its \<^verbatim>\<open>replace\<close> flag, or nothing when no
  route of the table matches.
\<close>

datatype view = LoadingV | HomeV | FeaturesV | AITutorV | DashboardV
  | NavigateV string bool | NoMatchV

definition routes :: "user_identity option \<Rightarrow> string \<Rightarrow> view" where
  "routes u path =
     (if matches ''/'' path then HomeV
      else if matches ''/features'' path then FeaturesV
      else if matches ''/tutor'' path
        then (if u \<noteq> None then AITutorV else NavigateV ''/'' True)
      else if matches ''/dashboard'' path
        then (if u \<noteq> None then DashboardV else NavigateV ''/'' True)
      else NoMatchV)"

definition render :: "app \<Rightarrow> view" where
  "render st =
     (if loading st \<or> processingAuth st then LoadingV
      else routes (user st) (pathname (location st)))"

text \<open>A rendered \<^verbatim>\<open>Navigate\<close> element navigates once it is committed.\<close>

definition commit :: "app \<Rightarrow> app" where
  "commit st = (case render st of NavigateV to replace \<Rightarrow> navigate to replace st | _ \<Rightarrow> st)"

text \<open>
  Visiting a list of paths one after the other from inside the application (a link or
  \<^verbatim>\<open>navigate\<close>): what is rendered at each visit.
\<close>

fun attempts :: "string list \<Rightarrow> app \<Rightarrow> view list" where
  "attempts [] st = []"
| "attempts (p # ps) st =
     (let s1 = navigate p False st in render s1 # attempts ps (commit s1))"

fun after_attempts :: "string list \<Rightarrow> app \<Rightarrow> app" where
  "after_attempts [] st = st"
| "after_attempts (p # ps) st = after_attempts ps (commit (navigate p False st))"

subsection \<open>One page load as a sequence of events\<close>

text \<open>
  The events of a page load: the effect runs after the first render, the outstanding
  request settles, a consumer of the context calls \<^verbatim>\<open>logout\<close> and its request settles,
  the user follows a link, the router commits a \<^verbatim>\<open>Navigate\<close>. The context, and with it
  \<^verbatim>\<open>logout\<close>, exists only once the loading gate is open. The effect has an empty
  dependency list and runs once; a reply to a logout call can arrive once a call has been
  sent. \<open>None\<close> says that the event cannot happen in the state.
\<close>

datatype event = Mount
  | SessionReply "session_body settled"
  | MeReply "user_identity option settled"
  | ClickLogout
  | LogoutReply "unit settled"
  | Goto string
  | Commit

fun step :: "event \<Rightarrow> app \<Rightarrow> app option" where
  "step Mount st =
     (if resolver st = Unmounted
      then (case effect st of Inl _ \<Rightarrow> None | Inr st' \<Rightarrow> Some st') else None)"
| "step (SessionReply r) st =
     (if resolver st = AwaitSession then Some (session_settle r st) else None)"
| "step (MeReply r) st =
     (if resolver st = AwaitMe then Some (me_settle r st) else None)"
| "step ClickLogout st =
     (if loading st \<or> processingAuth st then None else Some (logout_call st))"
| "step (LogoutReply r) st =
     (if PostLogout \<in> set (requests st) then Some (logout_settle r st) else None)"
| "step (Goto p) st =
     (if resolver st = Unmounted then None else Some (navigate p False st))"
| "step Commit st = (if resolver st = Unmounted then None else Some (commit st))"

fun run :: "event list \<Rightarrow> app \<Rightarrow> app option" where
  "run [] st = Some st"
| "run (e # es) st = (case step e st of None \<Rightarrow> None | Some st' \<Rightarrow> run es st')"

text \<open>The three states of the specification, read off the cells of \<^verbatim>\<open>App\<close>.\<close>

datatype phase = PENDING | AUTHENTICATED | ANONYMOUS

definition phase_of :: "app \<Rightarrow> phase" where
  "phase_of st =
     (if loading st \<or> processingAuth st then PENDING
      else if user st = None then ANONYMOUS else AUTHENTICATED)"


text \<open>What was sent: the tokens of the session calls, and the number of identity calls.\<close>

fun session_ids :: "request list \<Rightarrow> string list" where
  "session_ids [] = []"
| "session_ids (PostSession s # rs) = s # session_ids rs"
| "session_ids (GetMe # rs) = session_ids rs"
| "session_ids (PostLogout # rs) = session_ids rs"

definition me_calls :: "request list \<Rightarrow> nat" where
  "me_calls rs = length (filter (\<lambda>r. r = GetMe) rs)"

fun is_reply :: "event \<Rightarrow> bool" where
  "is_reply (SessionReply _) = True"
| "is_reply (MeReply _) = True"
| "is_reply _ = False"

text \<open>
  What holds of every state of a page load: before the effect has run nothing has
  happened; \<^verbatim>\<open>loading\<close> is true exactly until the resolver's last handler has run;
  \<^verbatim>\<open>processingAuth\<close> is true only while the session call is outstanding; and the
  resolver has sent the one call that the fragment of the loaded URL selects.
\<close>

definition load_inv :: "location \<Rightarrow> app \<Rightarrow> bool" where
  "load_inv loc st =
     ((resolver st = Unmounted \<longrightarrow> st = init loc)
    \<and> loading st = (resolver st \<noteq> Done)
    \<and> (processingAuth st \<longrightarrow> resolver st = AwaitSession)
    \<and> (resolver st \<noteq> Unmounted \<longrightarrow>
         session_ids (requests st) =
           (if includes_str (hash loc) ''session_id='' then [token_cut (hash loc)] else [])
       \<and> me_calls (requests st) =
           (if includes_str (hash loc) ''session_id='' then 0 else 1)))"

text \<open>The visitor of the specification's scenario.\<close>

definition ann :: user_identity where
  "ann = \<lparr>ident = ''u1'', name = ''Ann'', email = ''ann@example.org'',
     picture = None, learning_interests = None\<rparr>"

text \<open>
  A state in which the gate is open and nothing has been logged: who is signed in, the
  path shown, the history entries behind it and the requests sent.
\<close>

definition settled_at ::
  "user_identity option \<Rightarrow> string \<Rightarrow> location list \<Rightarrow> request list \<Rightarrow> app" where
  "settled_at u p bs rs = \<lparr>user = u, loading = False, processingAuth = False,
     location = \<lparr>pathname = p, search = [], hash = []\<rparr>, behind = bs,
     requests = rs, console = [], resolver = Done\<rparr>"

section \<open>Properties of the string functions\<close>

lemma split_go_nonempty: "split_go sep cur s \<noteq> []"
  by (induction sep cur s rule: split_go.induct) auto

lemma hd_split_go: "sep \<noteq> [] \<Longrightarrow> hd (split_go sep cur s) = cur @ before_sep sep s"
  by (induction sep cur s rule: split_go.induct) auto

lemma split_go_hd_tl:
  "sep \<noteq> [] \<Longrightarrow> \<exists>bs. split_go sep cur s = (cur @ before_sep sep s) # bs"
  using split_go_nonempty[of sep cur s] hd_split_go[of sep cur s]
  by (cases "split_go sep cur s") auto

lemma split_go_includes:
  "sep \<noteq> [] \<Longrightarrow> includes_str s sep \<Longrightarrow>
   split_go sep cur s = (cur @ before_sep sep s) # split_go sep [] (after_sep sep s)"
  by (induction sep cur s rule: split_go.induct) auto

lemma before_after_decomp:
  "includes_str s sep \<Longrightarrow> s = before_sep sep s @ sep @ after_sep sep s"
proof (induction s)
  case Nil
  then show ?case by simp
next
  case (Cons c cs)
  show ?case
  proof (cases "take (length sep) (c # cs) = sep")
    case True
    then have "c # cs = sep @ drop (length sep) (c # cs)"
      by (metis append_take_drop_id)
    with True show ?thesis by simp
  next
    case False
    with Cons show ?thesis by simp
  qed
qed

lemma before_sep_none: "\<not> includes_str s sep \<Longrightarrow> before_sep sep s = s"
  by (induction s) auto

lemma sessionId_of_includes:
  assumes "includes_str h ''session_id=''"
  shows "sessionId_of h = Some (token_cut h)"
proof -
  have "split_go ''session_id='' [] h =
          before_sep ''session_id='' h # split_go ''session_id='' [] (after_sep ''session_id='' h)"
    using split_go_includes[of "''session_id=''" h "[]"] assms by simp
  moreover obtain bs where
    "split_go ''session_id='' [] (after_sep ''session_id='' h) =
       before_sep ''session_id='' (after_sep ''session_id='' h) # bs"
    using split_go_hd_tl[of "''session_id=''" "[]" "after_sep ''session_id='' h"] by auto
  moreover obtain ts where
    "split_go ''&'' [] (before_sep ''session_id='' (after_sep ''session_id='' h)) =
       token_cut h # ts"
    using split_go_hd_tl[of "''&''" "[]" "before_sep ''session_id='' (after_sep ''session_id='' h)"]
    by (auto simp: token_cut_def)
  ultimately show ?thesis
    by (simp add: sessionId_of_def split_str_def)
qed


lemma includes_short: "length xs < length sep \<Longrightarrow> \<not> includes_str xs sep"
  by (induction xs) auto

lemma take_over_butlast:
  assumes "sep \<noteq> []" and "xs \<noteq> []"
  shows "take (length sep) (xs @ sep @ ys) = take (length sep) (xs @ butlast sep)"
proof -
  have "sep = butlast sep @ [last sep]" using assms(1) by simp
  then have "xs @ sep @ ys = (xs @ butlast sep) @ (last sep # ys)"
    by (metis append.assoc append_Cons append_Nil)
  moreover have "length sep \<le> length (xs @ butlast sep)"
    using assms by (cases xs) auto
  ultimately show ?thesis by (metis append_Nil2 diff_is_0_eq take_0 take_append)
qed

lemma before_sep_first:
  "sep \<noteq> [] \<Longrightarrow> includes_str s sep \<Longrightarrow> \<not> includes_str (before_sep sep s @ butlast sep) sep"
proof (induction s)
  case Nil
  then show ?case by simp
next
  case (Cons c cs)
  show ?case
  proof (cases "take (length sep) (c # cs) = sep")
    case True
    then show ?thesis using Cons.prems(1) by (simp add: includes_short)
  next
    case False
    with Cons.prems have inc: "includes_str cs sep" by simp
    have ih: "\<not> includes_str (before_sep sep cs @ butlast sep) sep"
      using Cons.IH[OF Cons.prems(1) inc] .
    have "c # cs = (c # before_sep sep cs) @ sep @ after_sep sep cs"
      using before_after_decomp[OF inc] by simp
    then have "take (length sep) (c # cs) = take (length sep) ((c # before_sep sep cs) @ butlast sep)"
      using take_over_butlast[of sep "c # before_sep sep cs" "after_sep sep cs"] Cons.prems(1)
      by simp
    with False ih show ?thesis by simp
  qed
qed

section \<open>Token extraction\<close>

text \<open>
  C6, as the code has it. For a fragment that contains \<^verbatim>\<open>session_id=\<close>, the extracted
  token is what follows the first \<^verbatim>\<open>session_id=\<close> up to the next \<^verbatim>\<open>&\<close> or the next
  \<^verbatim>\<open>session_id=\<close>, whichever comes first, or up to the end of the string when neither
  follows. When no second \<^verbatim>\<open>session_id=\<close> follows the first, this is the token of the
  specification. For \<^verbatim>\<open>#session_id=abc123&foo=bar\<close> the token is \<^verbatim>\<open>abc123\<close>.
\<close>

theorem sessionId_of_token:
  assumes "includes_str h ''session_id=''"
  shows "sessionId_of h = Some (token_cut h)
       \<and> (\<not> includes_str (after_sep ''session_id='' h) ''session_id='' \<longrightarrow>
            sessionId_of h = Some (token_stated h))
       \<and> sessionId_of ''#session_id=abc123&foo=bar'' = Some ''abc123''"
proof -
  have a: "sessionId_of h = Some (token_cut h)"
    using assms by (rule sessionId_of_includes)
  have b: "sessionId_of h = Some (token_stated h)"
    if "\<not> includes_str (after_sep ''session_id='' h) ''session_id=''"
    using a before_sep_none[OF that] by (simp add: token_cut_def token_stated_def)
  have "includes_str ''#session_id=abc123&foo=bar'' ''session_id=''" by simp
  then have c: "sessionId_of ''#session_id=abc123&foo=bar'' = Some ''abc123''"
    by (simp add: sessionId_of_includes token_cut_def)
  from a b c show ?thesis by blast
qed

theorem sessionId_of_token_witness:
  "includes_str ''#session_id=abc123&foo=bar'' ''session_id=''
   \<and> \<not> includes_str (after_sep ''session_id='' ''#session_id=abc123&foo=bar'') ''session_id=''
   \<and> sessionId_of ''#session_id=abc123&foo=bar'' = Some ''abc123''
   \<and> token_stated ''#session_id=abc123&foo=bar'' = ''abc123''"
  using sessionId_of_token[of "''#session_id=abc123&foo=bar''"]
  by (simp add: token_stated_def token_cut_def)

text \<open>
  With a second \<^verbatim>\<open>session_id=\<close> in front of the next \<^verbatim>\<open>&\<close>, \<^verbatim>\<open>split\<close> cuts there:
  the token is \<^verbatim>\<open>a\<close>, where the specification's words give \<^verbatim>\<open>asession_id=b\<close>.
\<close>

theorem sessionId_of_stated_counterexample:
  "includes_str ''#session_id=asession_id=b'' ''session_id=''
   \<and> sessionId_of ''#session_id=asession_id=b'' = Some ''a''
   \<and> token_stated ''#session_id=asession_id=b'' = ''asession_id=b''"
  by (simp add: sessionId_of_def split_str_def token_stated_def)

section \<open>What holds of every state of a page load\<close>

lemmas cell_defs = setUser_def setLoading_def setProcessingAuth_def console_error_def
  axios_send_def

lemma session_ids_append: "session_ids (xs @ ys) = session_ids xs @ session_ids ys"
  by (induction xs rule: session_ids.induct) auto

lemma me_calls_append: "me_calls (xs @ ys) = me_calls xs + me_calls ys"
  by (simp add: me_calls_def)

lemma effect_session:
  assumes "includes_str (hash (location st)) ''session_id=''"
  shows "effect st =
    Inr ((axios_send (PostSession (token_cut (hash (location st)))) (setProcessingAuth True st))
           \<lparr>resolver := AwaitSession\<rparr>)"
proof -
  from assms have "hash (location st) \<noteq> []" by (cases "hash (location st)") auto
  with assms show ?thesis
    by (simp add: effect_def sessionId_of_includes)
qed

lemma effect_me:
  assumes "\<not> includes_str (hash (location st)) ''session_id=''"
  shows "effect st = Inr ((axios_send GetMe st)\<lparr>resolver := AwaitMe\<rparr>)"
  using assms by (simp add: effect_def)

lemma session_settle_failed:
  "session_settle (Rejected e) st =
     st\<lparr>loading := False, processingAuth := False,
        console := console st @ [SessionProcessingFailed (RequestError e)], resolver := Done\<rparr>"
  "session_settle (Fulfilled NullBody) st =
     st\<lparr>loading := False, processingAuth := False,
        console := console st @ [SessionProcessingFailed (Thrown TypeError)], resolver := Done\<rparr>"
  by (simp_all add: session_settle_def session_catch_states_def cell_defs Let_def)

lemma session_settle_cleaned:
  "take 2 (pathname (location st)) \<noteq> ''//'' \<Longrightarrow>
   session_settle (Fulfilled (Body u)) st =
     st\<lparr>user := u, loading := False, processingAuth := False,
        location := \<lparr>pathname = pathname (location st), search = [], hash = []\<rparr>,
        resolver := Done\<rparr>"
  by (simp add: session_settle_def replaceState_def cell_defs Let_def)

lemma session_settle_refused:
  "take 2 (pathname (location st)) = ''//'' \<Longrightarrow>
   session_settle (Fulfilled (Body u)) st =
     st\<lparr>user := u, loading := False, processingAuth := False,
        console := console st @ [SessionProcessingFailed (Thrown SecurityError)],
        resolver := Done\<rparr>"
  by (simp add: session_settle_def session_catch_states_def replaceState_def cell_defs Let_def)

lemmas session_settle_simps = session_settle_failed session_settle_cleaned session_settle_refused

lemma session_settle_frame:
  "resolver (session_settle r st) = Done"
  "\<not> loading (session_settle r st)"
  "\<not> processingAuth (session_settle r st)"
  "requests (session_settle r st) = requests st"
  "behind (session_settle r st) = behind st"
proof -
  have "resolver (session_settle r st) = Done \<and> \<not> loading (session_settle r st)
      \<and> \<not> processingAuth (session_settle r st)
      \<and> requests (session_settle r st) = requests st
      \<and> behind (session_settle r st) = behind st"
  proof (cases r)
    case (Rejected e)
    then show ?thesis by (simp add: session_settle_failed)
  next
    case (Fulfilled d)
    show ?thesis
    proof (cases d)
      case NullBody
      with Fulfilled show ?thesis by (simp add: session_settle_failed)
    next
      case (Body u)
      with Fulfilled show ?thesis
        by (cases "take 2 (pathname (location st)) = ''//''")
           (simp_all add: session_settle_cleaned session_settle_refused)
    qed
  qed
  then show "resolver (session_settle r st) = Done"
    "\<not> loading (session_settle r st)"
    "\<not> processingAuth (session_settle r st)"
    "requests (session_settle r st) = requests st"
    "behind (session_settle r st) = behind st"
    by simp_all
qed

lemma session_states_loading:
  assumes "loading st"
  shows "\<forall>s \<in> set (butlast (session_settle_states r st)). loading s"
proof (cases r)
  case (Rejected e)
  with assms show ?thesis by (simp add: session_catch_states_def cell_defs Let_def)
next
  case (Fulfilled d)
  show ?thesis
  proof (cases d)
    case NullBody
    with Fulfilled assms show ?thesis by (simp add: session_catch_states_def cell_defs Let_def)
  next
    case (Body u)
    with Fulfilled assms show ?thesis
      by (cases "take 2 (pathname (location st)) = ''//''")
         (simp_all add: session_catch_states_def replaceState_def cell_defs Let_def)
  qed
qed

lemma routes_exact:
  "routes u ''/'' = HomeV"
  "routes u ''/features'' = FeaturesV"
  "routes u ''/tutor'' = (if u \<noteq> None then AITutorV else NavigateV ''/'' True)"
  "routes u ''/dashboard'' = (if u \<noteq> None then DashboardV else NavigateV ''/'' True)"
  by (simp_all add: routes_def matches_def lower_char_def)

lemma me_settle_simps:
  "me_settle (Fulfilled u) st = st\<lparr>user := u, loading := False, resolver := Done\<rparr>"
  "me_settle (Rejected e) st = st\<lparr>user := None, loading := False, resolver := Done\<rparr>"
  by (simp_all add: me_settle_def cell_defs Let_def)

lemma load_inv_init: "load_inv loc (init loc)"
  by (simp add: load_inv_def init_def)

lemma load_inv_mount:
  assumes "effect (init loc) = Inr st'"
  shows "load_inv loc st'"
proof (cases "includes_str (hash loc) ''session_id=''")
  case True
  then have "includes_str (hash (location (init loc))) ''session_id=''"
    by (simp add: init_def)
  from effect_session[OF this] assms True show ?thesis
    by (auto simp: load_inv_def init_def cell_defs me_calls_def)
next
  case False
  then have "\<not> includes_str (hash (location (init loc))) ''session_id=''"
    by (simp add: init_def)
  from effect_me[OF this] assms False show ?thesis
    by (auto simp: load_inv_def init_def cell_defs me_calls_def)
qed

lemma load_inv_step:
  assumes "load_inv loc st" and "step e st = Some st'"
  shows "load_inv loc st'"
proof (cases e)
  case Mount
  with assms have un: "resolver st = Unmounted" and eff: "effect st = Inr st'"
    by (auto split: if_splits sum.splits)
  from assms(1) un have "st = init loc" by (simp add: load_inv_def)
  with eff show ?thesis by (simp add: load_inv_mount)
next
  case (SessionReply r)
  with assms show ?thesis
    by (auto simp: load_inv_def session_settle_frame split: if_splits)
next
  case (MeReply r)
  with assms show ?thesis
    by (cases r) (auto simp: load_inv_def me_settle_simps split: if_splits)
next
  case ClickLogout
  with assms show ?thesis
    by (auto simp: load_inv_def logout_call_def cell_defs session_ids_append me_calls_append
        me_calls_def split: if_splits)
next
  case (LogoutReply r)
  with assms show ?thesis
    by (cases r) (auto simp: load_inv_def cell_defs init_def split: if_splits)
next
  case (Goto p)
  with assms show ?thesis
    by (auto simp: load_inv_def navigate_def split: if_splits)
next
  case Commit
  with assms show ?thesis
    by (auto simp: load_inv_def commit_def navigate_def split: if_splits view.splits)
qed

lemma load_inv_run:
  "load_inv loc st \<Longrightarrow> run evs st = Some st' \<Longrightarrow> load_inv loc st'"
proof (induction evs arbitrary: st)
  case Nil
  then show ?case by simp
next
  case (Cons e evs)
  then show ?case
    by (auto split: option.splits dest: load_inv_step)
qed

lemma load_inv_reach: "run evs (init loc) = Some st \<Longrightarrow> load_inv loc st"
  using load_inv_run[OF load_inv_init] .

lemma pending_iff: "load_inv loc st \<Longrightarrow> (phase_of st = PENDING) = (resolver st \<noteq> Done)"
  by (auto simp: load_inv_def phase_of_def)

lemmas run_defs = init_def effect_def sessionId_of_def split_str_def session_settle_simps
  me_settle_simps logout_call_def cell_defs commit_def render_def routes_exact navigate_def
  settled_at_def


section \<open>Logout\<close>

text \<open>
  C1, as the code has it. \<^verbatim>\<open>logout\<close> sends one \<^verbatim>\<open>POST /auth/logout\<close>. When the request
  is fulfilled the stored identity is null afterwards and nothing is logged. When it is
  rejected the stored identity is left as it was and the failure is logged.
\<close>

theorem logout_clears_on_success:
  "requests (logout r st) = requests st @ [PostLogout]
   \<and> user (logout (Fulfilled ()) st) = None
   \<and> console (logout (Fulfilled ()) st) = console st
   \<and> user (logout (Rejected e) st) = user st
   \<and> console (logout (Rejected e) st) = console st @ [LogoutFailed e]"
  by (cases r) (simp_all add: logout_def logout_call_def cell_defs)

text \<open>
  A visitor with a session opens the landing page, is signed in, and clicks logout; the
  request is rejected. Ann is still the stored identity.
\<close>

theorem logout_rejected_counterexample:
  "map_option user
     (run [Mount, MeReply (Fulfilled (Some ann)), ClickLogout, LogoutReply (Rejected ''Network Error'')]
        (init \<lparr>pathname = ''/'', search = [], hash = []\<rparr>)) = Some (Some ann)"
  by (simp add: init_def effect_def me_settle_simps logout_call_def cell_defs)

section \<open>The session fragment\<close>

text \<open>
  C2, as the code has it. For a load whose fragment contains \<^verbatim>\<open>session_id=\<close>: when the
  session request is fulfilled with a body and the path does not begin with two slashes,
  the fragment is gone from the visible URL once the resolution has settled, the path is
  the one that was loaded, no history entry has been added, and the fragment is still
  gone after the router has committed what is rendered. When the request is rejected, or
  fulfilled without a body, the resolver leaves the URL as it was and the visitor is
  anonymous: on \<^verbatim>\<open>/\<close> and \<^verbatim>\<open>/features\<close> nothing else happens, so the fragment stays; on
  \<^verbatim>\<open>/tutor\<close> and \<^verbatim>\<open>/dashboard\<close> the route guard's redirect then puts \<^verbatim>\<open>/\<close> in the
  place of the current entry.
\<close>

theorem fragment_after_session_reply:
  assumes "includes_str (hash loc) ''session_id=''"
  shows "(take 2 (pathname loc) \<noteq> ''//'' \<longrightarrow>
           (\<exists>st. run [Mount, SessionReply (Fulfilled (Body u))] (init loc) = Some st
              \<and> hash (location st) = []
              \<and> pathname (location st) = pathname loc
              \<and> behind st = []
              \<and> hash (location (commit st)) = []))
       \<and> (r = Rejected e \<or> r = Fulfilled NullBody \<longrightarrow>
           (\<exists>st. run [Mount, SessionReply r] (init loc) = Some st
              \<and> location st = loc \<and> behind st = [] \<and> user st = None
              \<and> (pathname loc = ''/'' \<or> pathname loc = ''/features'' \<longrightarrow> commit st = st)
              \<and> (pathname loc = ''/tutor'' \<or> pathname loc = ''/dashboard'' \<longrightarrow>
                   location (commit st) = \<lparr>pathname = ''/'', search = [], hash = []\<rparr>
                 \<and> behind (commit st) = [])))"
proof -
  let ?s = "(axios_send (PostSession (token_cut (hash loc))) (setProcessingAuth True (init loc)))
              \<lparr>resolver := AwaitSession\<rparr>"
  have "includes_str (hash (location (init loc))) ''session_id=''"
    using assms by (simp add: init_def)
  from effect_session[OF this] have eff: "effect (init loc) = Inr ?s"
    by (simp add: init_def)
  have mount: "run [Mount, SessionReply x] (init loc) = Some (session_settle x ?s)" for x
    using eff by (simp add: init_def cell_defs)
  have loc: "location ?s = loc" by (simp add: init_def cell_defs)
  have a: "\<exists>st. run [Mount, SessionReply (Fulfilled (Body u))] (init loc) = Some st
              \<and> hash (location st) = []
              \<and> pathname (location st) = pathname loc
              \<and> behind st = []
              \<and> hash (location (commit st)) = []"
    if "take 2 (pathname loc) \<noteq> ''//''"
  proof -
    from that loc have "take 2 (pathname (location ?s)) \<noteq> ''//''" by simp
    from session_settle_cleaned[OF this, of u] mount[of "Fulfilled (Body u)"]
    show ?thesis
      by (auto simp: init_def cell_defs commit_def navigate_def split: view.splits)
  qed
  have b: "\<exists>st. run [Mount, SessionReply r] (init loc) = Some st
              \<and> location st = loc \<and> behind st = [] \<and> user st = None
              \<and> (pathname loc = ''/'' \<or> pathname loc = ''/features'' \<longrightarrow> commit st = st)
              \<and> (pathname loc = ''/tutor'' \<or> pathname loc = ''/dashboard'' \<longrightarrow>
                   location (commit st) = \<lparr>pathname = ''/'', search = [], hash = []\<rparr>
                 \<and> behind (commit st) = [])"
    if "r = Rejected e \<or> r = Fulfilled NullBody"
    using that mount[of r]
    by (auto simp: session_settle_failed init_def cell_defs commit_def render_def routes_exact
        navigate_def)
  from a b show ?thesis by blast
qed

theorem fragment_after_session_reply_witness:
  "includes_str (hash \<lparr>pathname = ''/tutor'', search = [], hash = ''#session_id=xyz''\<rparr>) ''session_id=''
   \<and> take 2 (pathname \<lparr>pathname = ''/tutor'', search = [], hash = ''#session_id=xyz''\<rparr>) \<noteq> ''//''
   \<and> map_option (\<lambda>st. (pathname (location st), hash (location st), behind st))
        (run [Mount, SessionReply (Fulfilled (Body (Some ann)))]
          (init \<lparr>pathname = ''/tutor'', search = [], hash = ''#session_id=xyz''\<rparr>))
      = Some (''/tutor'', [], [])
   \<and> map_option (\<lambda>st. (location st, location (commit st)))
        (run [Mount, SessionReply (Rejected ''Network Error'')]
          (init \<lparr>pathname = ''/tutor'', search = [], hash = ''#session_id=xyz''\<rparr>))
      = Some (\<lparr>pathname = ''/tutor'', search = [], hash = ''#session_id=xyz''\<rparr>,
              \<lparr>pathname = ''/'', search = [], hash = []\<rparr>)
   \<and> includes_str (hash \<lparr>pathname = ''/features'', search = [], hash = ''#session_id=xyz''\<rparr>)
        ''session_id=''
   \<and> map_option (\<lambda>st. (location st, location (commit st)))
        (run [Mount, SessionReply (Fulfilled NullBody)]
          (init \<lparr>pathname = ''/features'', search = [], hash = ''#session_id=xyz''\<rparr>))
      = Some (\<lparr>pathname = ''/features'', search = [], hash = ''#session_id=xyz''\<rparr>,
              \<lparr>pathname = ''/features'', search = [], hash = ''#session_id=xyz''\<rparr>)"
  using fragment_after_session_reply[of
      "\<lparr>pathname = ''/tutor'', search = [], hash = ''#session_id=xyz''\<rparr>"
      "Some ann" "Rejected ''Network Error''" "''Network Error''"]
    fragment_after_session_reply[of
      "\<lparr>pathname = ''/features'', search = [], hash = ''#session_id=xyz''\<rparr>"
      "Some ann" "Fulfilled NullBody" "''Network Error''"]
  by (auto simp: init_def)

text \<open>
  A load of \<^verbatim>\<open>/features#session_id=xyz\<close> whose session request is rejected: after the
  resolution has settled and the router has committed what is rendered, the fragment is
  still in the URL.
\<close>

theorem fragment_kept_on_failure_counterexample:
  "includes_str ''#session_id=xyz'' ''session_id=''
   \<and> map_option location
        (run [Mount, SessionReply (Rejected ''Request failed with status code 401''), Commit]
          (init \<lparr>pathname = ''/features'', search = [], hash = ''#session_id=xyz''\<rparr>))
      = Some \<lparr>pathname = ''/features'', search = [], hash = ''#session_id=xyz''\<rparr>"
  by (simp add: run_defs)




text \<open>
  C9. Whether the session path is taken is decided by a substring test. A fragment that
  contains \<^verbatim>\<open>session_id=\<close> anywhere makes the effect send \<^verbatim>\<open>POST /auth/session\<close>, with the
  token cut from what follows the first occurrence of \<^verbatim>\<open>session_id=\<close>; any other fragment
  makes it send \<^verbatim>\<open>GET /auth/me\<close>. The fragment \<^verbatim>\<open>#other_session_id=t\<close> sends the token
  \<^verbatim>\<open>t\<close>, and the fragment \<^verbatim>\<open>#session_id=\<close> sends the empty token.
\<close>

theorem fragment_detection:
  "(includes_str (hash loc) ''session_id='' \<longrightarrow>
      effect (init loc) = Inr ((init loc)\<lparr>processingAuth := True,
        requests := [PostSession (token_cut (hash loc))], resolver := AwaitSession\<rparr>)
    \<and> hash loc = before_sep ''session_id='' (hash loc) @ ''session_id=''
                   @ after_sep ''session_id='' (hash loc)
    \<and> \<not> includes_str (before_sep ''session_id='' (hash loc) @ ''session_id'') ''session_id='')
   \<and> (\<not> includes_str (hash loc) ''session_id='' \<longrightarrow>
      effect (init loc) = Inr ((init loc)\<lparr>requests := [GetMe], resolver := AwaitMe\<rparr>))
   \<and> effect (init \<lparr>pathname = p, search = q, hash = ''#other_session_id=t''\<rparr>)
       = Inr ((init \<lparr>pathname = p, search = q, hash = ''#other_session_id=t''\<rparr>)
               \<lparr>processingAuth := True, requests := [PostSession ''t''], resolver := AwaitSession\<rparr>)
   \<and> effect (init \<lparr>pathname = p, search = q, hash = ''#session_id=''\<rparr>)
       = Inr ((init \<lparr>pathname = p, search = q, hash = ''#session_id=''\<rparr>)
               \<lparr>processingAuth := True, requests := [PostSession ''''], resolver := AwaitSession\<rparr>)"
proof -
  have a: "effect (init loc) = Inr ((init loc)\<lparr>processingAuth := True,
        requests := [PostSession (token_cut (hash loc))], resolver := AwaitSession\<rparr>)"
    if "includes_str (hash loc) ''session_id=''"
  proof -
    from that have "includes_str (hash (location (init loc))) ''session_id=''"
      by (simp add: init_def)
    from effect_session[OF this] show ?thesis by (simp add: init_def cell_defs)
  qed
  have b: "hash loc = before_sep ''session_id='' (hash loc) @ ''session_id=''
                   @ after_sep ''session_id='' (hash loc)"
    if "includes_str (hash loc) ''session_id=''"
    using before_after_decomp[OF that] .
  have c: "\<not> includes_str (before_sep ''session_id='' (hash loc) @ ''session_id'') ''session_id=''"
    if "includes_str (hash loc) ''session_id=''"
    using before_sep_first[OF _ that] by simp
  have d: "effect (init loc) = Inr ((init loc)\<lparr>requests := [GetMe], resolver := AwaitMe\<rparr>)"
    if "\<not> includes_str (hash loc) ''session_id=''"
  proof -
    from that have "\<not> includes_str (hash (location (init loc))) ''session_id=''"
      by (simp add: init_def)
    from effect_me[OF this] show ?thesis by (simp add: init_def cell_defs)
  qed
  have e: "effect (init \<lparr>pathname = p, search = q, hash = ''#other_session_id=t''\<rparr>)
       = Inr ((init \<lparr>pathname = p, search = q, hash = ''#other_session_id=t''\<rparr>)
               \<lparr>processingAuth := True, requests := [PostSession ''t''], resolver := AwaitSession\<rparr>)"
    by (simp add: init_def effect_def sessionId_of_def split_str_def cell_defs)
  have f: "effect (init \<lparr>pathname = p, search = q, hash = ''#session_id=''\<rparr>)
       = Inr ((init \<lparr>pathname = p, search = q, hash = ''#session_id=''\<rparr>)
               \<lparr>processingAuth := True, requests := [PostSession ''''], resolver := AwaitSession\<rparr>)"
    by (simp add: init_def effect_def sessionId_of_def split_str_def cell_defs)
  from a b c d e f show ?thesis by blast
qed

theorem fragment_detection_witness:
  "includes_str (hash \<lparr>pathname = ''/'', search = [], hash = ''#a=1&session_id=tok&b=2''\<rparr>) ''session_id=''
   \<and> map_sum id requests (effect (init \<lparr>pathname = ''/'', search = [], hash = ''#a=1&session_id=tok&b=2''\<rparr>))
       = Inr [PostSession ''tok'']
   \<and> \<not> includes_str (hash \<lparr>pathname = ''/'', search = [], hash = ''#session=tok''\<rparr>) ''session_id=''
   \<and> map_sum id requests (effect (init \<lparr>pathname = ''/'', search = [], hash = ''#session=tok''\<rparr>))
       = Inr [GetMe]"
  using fragment_detection[of "\<lparr>pathname = ''/'', search = [], hash = ''#a=1&session_id=tok&b=2''\<rparr>"]
    fragment_detection[of "\<lparr>pathname = ''/'', search = [], hash = ''#session=tok''\<rparr>"]
  by (simp add: token_cut_def)

section \<open>One resolution path for each load\<close>



text \<open>
  C7. For a load without \<^verbatim>\<open>session_id=\<close> in the fragment whose identity call is
  rejected, the resolution settles with a null identity in the anonymous state, nothing
  is written to the console, the URL is untouched, and what is rendered is the ordinary
  view of an anonymous visitor.
\<close>

theorem me_failure_silent:
  assumes "\<not> includes_str (hash loc) ''session_id=''"
  shows "\<exists>st. run [Mount, MeReply (Rejected e)] (init loc) = Some st
            \<and> user st = None \<and> phase_of st = ANONYMOUS
            \<and> console st = [] \<and> requests st = [GetMe]
            \<and> location st = loc
            \<and> render st = routes None (pathname loc)"
proof -
  have "\<not> includes_str (hash (location (init loc))) ''session_id=''"
    using assms by (simp add: init_def)
  from effect_me[OF this] show ?thesis
    by (simp add: me_settle_simps cell_defs init_def phase_of_def render_def)
qed

theorem me_failure_silent_witness:
  "\<not> includes_str (hash \<lparr>pathname = ''/dashboard'', search = [], hash = []\<rparr>) ''session_id=''
   \<and> map_option (\<lambda>st. (user st, phase_of st, console st, requests st, render st))
        (run [Mount, MeReply (Rejected ''Request failed with status code 401'')]
          (init \<lparr>pathname = ''/dashboard'', search = [], hash = []\<rparr>))
     = Some (None, ANONYMOUS, [], [GetMe], NavigateV ''/'' True)"
  using me_failure_silent[of "\<lparr>pathname = ''/dashboard'', search = [], hash = []\<rparr>"
      "''Request failed with status code 401''"]
  by (auto simp: init_def routes_exact)

section \<open>The loading gate and the route guard\<close>

text \<open>
  C3. In every state of a page load, the outcome is pending exactly while the resolver's
  last handler has not run. While it is pending, the loading placeholder is rendered,
  whatever the location asked for, and also between the calls that the handlers of the
  settling request make.
\<close>

theorem loading_gate:
  assumes "run evs (init loc) = Some st"
  shows "(phase_of st = PENDING) = (resolver st \<noteq> Done)
       \<and> (phase_of st = PENDING \<longrightarrow>
            render st = LoadingV \<and> render (st\<lparr>location := l\<rparr>) = LoadingV
          \<and> (\<forall>s \<in> set (butlast (session_settle_states r st)). render s = LoadingV)
          \<and> (\<forall>s \<in> set (butlast (me_settle_states m st)). render s = LoadingV))"
proof -
  have inv: "load_inv loc st" using assms by (rule load_inv_reach)
  have a: "(phase_of st = PENDING) = (resolver st \<noteq> Done)"
    using inv by (rule pending_iff)
  have b: "render st = LoadingV \<and> render (st\<lparr>location := l\<rparr>) = LoadingV"
    if "phase_of st = PENDING"
    using that by (auto simp: phase_of_def render_def split: if_splits)
  have ld: "loading st" if "phase_of st = PENDING"
    using that a inv by (simp add: load_inv_def)
  have c: "\<forall>s \<in> set (butlast (session_settle_states r st)). render s = LoadingV"
    if "phase_of st = PENDING"
    using session_states_loading[OF ld[OF that], of r] by (simp add: render_def)
  have d: "\<forall>s \<in> set (butlast (me_settle_states m st)). render s = LoadingV"
    if "phase_of st = PENDING"
    using ld[OF that] by (cases m) (simp_all add: Let_def render_def cell_defs)
  from a b c d show ?thesis by blast
qed

theorem loading_gate_witness:
  "run [Mount] (init \<lparr>pathname = ''/dashboard'', search = [], hash = ''#session_id=xyz''\<rparr>)
     = Some \<lparr>user = None, loading = True, processingAuth = True,
         location = \<lparr>pathname = ''/dashboard'', search = [], hash = ''#session_id=xyz''\<rparr>,
         behind = [], requests = [PostSession ''xyz''], console = [], resolver = AwaitSession\<rparr>
   \<and> phase_of \<lparr>user = None, loading = True, processingAuth = True,
         location = \<lparr>pathname = ''/dashboard'', search = [], hash = ''#session_id=xyz''\<rparr>,
         behind = [], requests = [PostSession ''xyz''], console = [], resolver = AwaitSession\<rparr> = PENDING
   \<and> render \<lparr>user = None, loading = True, processingAuth = True,
         location = \<lparr>pathname = ''/tutor'', search = [], hash = []\<rparr>,
         behind = [], requests = [PostSession ''xyz''], console = [], resolver = AwaitSession\<rparr> = LoadingV
   \<and> map render (butlast (session_settle_states (Fulfilled (Body (Some ann)))
         \<lparr>user = None, loading = True, processingAuth = True,
         location = \<lparr>pathname = ''/dashboard'', search = [], hash = ''#session_id=xyz''\<rparr>,
         behind = [], requests = [PostSession ''xyz''], console = [], resolver = AwaitSession\<rparr>))
       = [LoadingV, LoadingV, LoadingV]"
proof -
  have r: "run [Mount] (init \<lparr>pathname = ''/dashboard'', search = [], hash = ''#session_id=xyz''\<rparr>)
     = Some \<lparr>user = None, loading = True, processingAuth = True,
         location = \<lparr>pathname = ''/dashboard'', search = [], hash = ''#session_id=xyz''\<rparr>,
         behind = [], requests = [PostSession ''xyz''], console = [], resolver = AwaitSession\<rparr>"
    by (simp add: init_def effect_def sessionId_of_def split_str_def cell_defs)
  from loading_gate[OF r, of "\<lparr>pathname = ''/tutor'', search = [], hash = []\<rparr>" "Fulfilled (Body (Some ann))"] r
  show ?thesis by (simp add: Let_def cell_defs replaceState_def)
qed

lemma anon_attempt:
  assumes "phase_of st = ANONYMOUS" and "p = ''/tutor'' \<or> p = ''/dashboard''"
  shows "render (navigate p False st) = NavigateV ''/'' True"
    and "phase_of (commit (navigate p False st)) = ANONYMOUS"
  using assms
  by (auto simp: phase_of_def render_def routes_exact navigate_def commit_def split: if_splits)

lemma anon_attempts:
  "phase_of st = ANONYMOUS \<Longrightarrow> set ps \<subseteq> {''/tutor'', ''/dashboard''} \<Longrightarrow>
   attempts ps st = replicate (length ps) (NavigateV ''/'' True)
   \<and> phase_of (after_attempts ps st) = ANONYMOUS"
proof (induction ps arbitrary: st)
  case Nil
  then show ?case by simp
next
  case (Cons p ps)
  from Cons.prems(2) have p: "p = ''/tutor'' \<or> p = ''/dashboard''"
    and ps: "set ps \<subseteq> {''/tutor'', ''/dashboard''}" by auto
  from anon_attempt[OF Cons.prems(1) p] Cons.IH[OF _ ps]
  show ?case by (simp add: Let_def)
qed

text \<open>
  C4. At \<^verbatim>\<open>/tutor\<close> or \<^verbatim>\<open>/dashboard\<close>: an anonymous visitor gets a \<^verbatim>\<open>Navigate\<close> to
  the landing page with \<^verbatim>\<open>replace\<close>; once it is committed the landing page is shown, the
  entries behind the current one are those that were behind the protected one, and the
  visitor is still anonymous; any sequence of further visits to protected paths renders
  that redirect each time. A signed-in visitor gets the protected page.
\<close>

theorem route_guard:
  assumes "pathname (location st) = ''/tutor'' \<or> pathname (location st) = ''/dashboard''"
  shows "(phase_of st = ANONYMOUS \<longrightarrow>
            render st = NavigateV ''/'' True
          \<and> location (commit st) = \<lparr>pathname = ''/'', search = [], hash = []\<rparr>
          \<and> behind (commit st) = behind st
          \<and> phase_of (commit st) = ANONYMOUS
          \<and> render (commit st) = HomeV
          \<and> (set ps \<subseteq> {''/tutor'', ''/dashboard''} \<longrightarrow>
               attempts ps st = replicate (length ps) (NavigateV ''/'' True)
             \<and> phase_of (after_attempts ps st) = ANONYMOUS))
       \<and> (phase_of st = AUTHENTICATED \<longrightarrow>
            render st = (if pathname (location st) = ''/tutor'' then AITutorV else DashboardV))"
proof -
  have a: "render st = NavigateV ''/'' True
          \<and> location (commit st) = \<lparr>pathname = ''/'', search = [], hash = []\<rparr>
          \<and> behind (commit st) = behind st
          \<and> phase_of (commit st) = ANONYMOUS
          \<and> render (commit st) = HomeV" if "phase_of st = ANONYMOUS"
    using that assms
    by (auto simp: phase_of_def render_def routes_exact navigate_def commit_def split: if_splits)
  have b: "render st = (if pathname (location st) = ''/tutor'' then AITutorV else DashboardV)"
    if "phase_of st = AUTHENTICATED"
    using that assms
    by (auto simp: phase_of_def render_def routes_exact split: if_splits)
  from a b anon_attempts[of st ps] show ?thesis by blast
qed

theorem route_guard_witness:
  "phase_of (settled_at None ''/tutor'' [\<lparr>pathname = ''/features'', search = [], hash = []\<rparr>] [GetMe])
     = ANONYMOUS
   \<and> render (settled_at None ''/tutor'' [\<lparr>pathname = ''/features'', search = [], hash = []\<rparr>] [GetMe])
     = NavigateV ''/'' True
   \<and> commit (settled_at None ''/tutor'' [\<lparr>pathname = ''/features'', search = [], hash = []\<rparr>] [GetMe])
     = settled_at None ''/'' [\<lparr>pathname = ''/features'', search = [], hash = []\<rparr>] [GetMe]
   \<and> render (settled_at None ''/'' [\<lparr>pathname = ''/features'', search = [], hash = []\<rparr>] [GetMe])
     = HomeV
   \<and> attempts [''/tutor'', ''/dashboard'', ''/tutor'']
        (settled_at None ''/tutor'' [\<lparr>pathname = ''/features'', search = [], hash = []\<rparr>] [GetMe])
     = [NavigateV ''/'' True, NavigateV ''/'' True, NavigateV ''/'' True]
   \<and> phase_of (settled_at (Some ann) ''/dashboard'' [] [GetMe]) = AUTHENTICATED
   \<and> render (settled_at (Some ann) ''/dashboard'' [] [GetMe]) = DashboardV"
proof -
  let ?a = "settled_at None ''/tutor'' [\<lparr>pathname = ''/features'', search = [], hash = []\<rparr>] [GetMe]"
  let ?u = "settled_at (Some ann) ''/dashboard'' [] [GetMe]"
  have p: "phase_of ?a = ANONYMOUS" "phase_of ?u = AUTHENTICATED"
    by (simp_all add: phase_of_def settled_at_def)
  have l: "pathname (location ?a) = ''/tutor''" "pathname (location ?u) = ''/dashboard''"
    by (simp_all add: settled_at_def)
  have c: "commit ?a
      = settled_at None ''/'' [\<lparr>pathname = ''/features'', search = [], hash = []\<rparr>] [GetMe]"
    by (simp add: run_defs)
  from route_guard[of ?a "[''/tutor'', ''/dashboard'', ''/tutor'']"] route_guard[of ?u "[]"] p l c
  show ?thesis by (simp add: numeral_3_eq_3)
qed

section \<open>The three states\<close>

lemma anon_step:
  assumes "load_inv loc st" and "phase_of st = ANONYMOUS" and "step e st = Some st'"
  shows "phase_of st' = ANONYMOUS"
proof -
  from assms(1,2) have d: "resolver st = Done" "\<not> loading st" "\<not> processingAuth st" "user st = None"
    by (auto simp: load_inv_def phase_of_def split: if_splits)
  show ?thesis
  proof (cases e)
    case (LogoutReply r)
    with assms(3) d show ?thesis
      by (cases r) (auto simp: phase_of_def cell_defs split: if_splits)
  next
    case Commit
    with assms(3) d show ?thesis
      by (auto simp: phase_of_def commit_def navigate_def split: if_splits view.splits)
  qed (use assms(3) d in \<open>auto simp: phase_of_def logout_call_def cell_defs navigate_def split: if_splits\<close>)
qed

lemma anon_run:
  "load_inv loc st \<Longrightarrow> phase_of st = ANONYMOUS \<Longrightarrow> run evs st = Some st' \<Longrightarrow>
   phase_of st' = ANONYMOUS"
proof (induction evs arbitrary: st)
  case Nil
  then show ?case by simp
next
  case (Cons e evs)
  from Cons.prems(3) obtain s where s: "step e st = Some s" and r: "run evs s = Some st'"
    by (auto split: option.splits)
  from Cons.IH[OF load_inv_step[OF Cons.prems(1) s] anon_step[OF Cons.prems(1,2) s] r]
  show ?case .
qed

lemma phase_change:
  assumes "load_inv loc st" and "step e st = Some st'" and "phase_of st' \<noteq> phase_of st"
  shows "(phase_of st = PENDING \<and> is_reply e)
       \<or> (phase_of st = AUTHENTICATED \<and> phase_of st' = ANONYMOUS \<and> e = LogoutReply (Fulfilled ()))"
proof (cases e)
  case Mount
  with assms(2) have un: "resolver st = Unmounted" and eff: "effect st = Inr st'"
    by (auto split: if_splits sum.splits)
  have "loading st' = loading st"
    using eff
    by (cases "includes_str (hash (location st)) ''session_id=''")
       (auto simp: effect_session effect_me cell_defs)
  moreover from assms(1) un have "loading st" by (auto simp: load_inv_def init_def)
  ultimately show ?thesis using assms(3) by (simp add: phase_of_def)
next
  case (SessionReply r)
  with assms show ?thesis
    by (auto simp: load_inv_def phase_of_def split: if_splits)
next
  case (MeReply r)
  with assms show ?thesis
    by (auto simp: load_inv_def phase_of_def split: if_splits)
next
  case ClickLogout
  with assms show ?thesis
    by (auto simp: phase_of_def logout_call_def cell_defs split: if_splits)
next
  case (LogoutReply r)
  with assms show ?thesis
    by (cases r) (auto simp: phase_of_def cell_defs split: if_splits)
next
  case (Goto p)
  with assms show ?thesis
    by (auto simp: phase_of_def navigate_def split: if_splits)
next
  case Commit
  with assms show ?thesis
    by (auto simp: phase_of_def commit_def navigate_def split: if_splits view.splits)
qed

text \<open>
  C8. In every state of a page load that is anonymous, the state after any event, and
  after any further events, is anonymous. An event changes the state only from pending,
  when the resolver's request settles, or from authenticated to anonymous, when a logout
  request is fulfilled.
\<close>

theorem anonymous_is_terminal:
  assumes "run evs (init loc) = Some st" and "step e st = Some st'" and "run evs' st' = Some st''"
  shows "(phase_of st = ANONYMOUS \<longrightarrow> phase_of st' = ANONYMOUS \<and> phase_of st'' = ANONYMOUS)
       \<and> (phase_of st' \<noteq> phase_of st \<longrightarrow>
            (phase_of st = PENDING \<and> is_reply e)
          \<or> (phase_of st = AUTHENTICATED \<and> phase_of st' = ANONYMOUS
              \<and> e = LogoutReply (Fulfilled ())))"
proof -
  have inv: "load_inv loc st" using assms(1) by (rule load_inv_reach)
  have inv': "load_inv loc st'" using inv assms(2) by (rule load_inv_step)
  have a: "phase_of st' = ANONYMOUS \<and> phase_of st'' = ANONYMOUS" if "phase_of st = ANONYMOUS"
    using anon_step[OF inv that assms(2)] anon_run[OF inv' _ assms(3)] by simp
  from a phase_change[OF inv assms(2)] show ?thesis by blast
qed

theorem anonymous_is_terminal_witness:
  "run [Mount, MeReply (Rejected ''Request failed with status code 401'')]
      (init \<lparr>pathname = ''/'', search = [], hash = []\<rparr>) = Some (settled_at None ''/'' [] [GetMe])
   \<and> step (Goto ''/tutor'') (settled_at None ''/'' [] [GetMe])
       = Some (settled_at None ''/tutor'' [\<lparr>pathname = ''/'', search = [], hash = []\<rparr>] [GetMe])
   \<and> run [Commit, ClickLogout, LogoutReply (Fulfilled ())]
        (settled_at None ''/tutor'' [\<lparr>pathname = ''/'', search = [], hash = []\<rparr>] [GetMe])
       = Some (settled_at None ''/'' [\<lparr>pathname = ''/'', search = [], hash = []\<rparr>] [GetMe, PostLogout])
   \<and> phase_of (settled_at None ''/'' [] [GetMe]) = ANONYMOUS
   \<and> phase_of (settled_at None ''/tutor'' [\<lparr>pathname = ''/'', search = [], hash = []\<rparr>] [GetMe]) = ANONYMOUS
   \<and> phase_of (settled_at None ''/'' [\<lparr>pathname = ''/'', search = [], hash = []\<rparr>] [GetMe, PostLogout])
       = ANONYMOUS
   \<and> run [Mount, MeReply (Fulfilled (Some ann)), ClickLogout]
        (init \<lparr>pathname = ''/'', search = [], hash = []\<rparr>)
       = Some (settled_at (Some ann) ''/'' [] [GetMe, PostLogout])
   \<and> step (LogoutReply (Fulfilled ())) (settled_at (Some ann) ''/'' [] [GetMe, PostLogout])
       = Some (settled_at None ''/'' [] [GetMe, PostLogout])
   \<and> phase_of (settled_at (Some ann) ''/'' [] [GetMe, PostLogout]) = AUTHENTICATED
   \<and> phase_of (settled_at None ''/'' [] [GetMe, PostLogout]) = ANONYMOUS"
proof -
  let ?home = "\<lparr>pathname = ''/'', search = [], hash = []\<rparr>"
  have a1: "run [Mount, MeReply (Rejected ''Request failed with status code 401'')] (init ?home)
      = Some (settled_at None ''/'' [] [GetMe])"
    by (simp add: run_defs)
  have a2: "step (Goto ''/tutor'') (settled_at None ''/'' [] [GetMe])
      = Some (settled_at None ''/tutor'' [?home] [GetMe])"
    by (simp add: run_defs)
  have a3: "run [Commit, ClickLogout, LogoutReply (Fulfilled ())]
        (settled_at None ''/tutor'' [?home] [GetMe])
      = Some (settled_at None ''/'' [?home] [GetMe, PostLogout])"
    by (simp add: run_defs)
  have b1: "run [Mount, MeReply (Fulfilled (Some ann)), ClickLogout] (init ?home)
      = Some (settled_at (Some ann) ''/'' [] [GetMe, PostLogout])"
    by (simp add: run_defs)
  have b2: "step (LogoutReply (Fulfilled ())) (settled_at (Some ann) ''/'' [] [GetMe, PostLogout])
      = Some (settled_at None ''/'' [] [GetMe, PostLogout])"
    by (simp add: run_defs)
  have b3: "run [] (settled_at None ''/'' [] [GetMe, PostLogout])
      = Some (settled_at None ''/'' [] [GetMe, PostLogout])"
    by simp
  have p: "phase_of (settled_at None ''/'' [] [GetMe]) = ANONYMOUS"
    "phase_of (settled_at (Some ann) ''/'' [] [GetMe, PostLogout]) = AUTHENTICATED"
    by (simp_all add: phase_of_def settled_at_def)
  have q: "phase_of (settled_at None ''/tutor'' [?home] [GetMe]) = ANONYMOUS"
    "phase_of (settled_at None ''/'' [?home] [GetMe, PostLogout]) = ANONYMOUS"
    using anonymous_is_terminal[OF a1 a2 a3] p(1) by blast+
  have r: "phase_of (settled_at None ''/'' [] [GetMe, PostLogout]) = ANONYMOUS"
    using anonymous_is_terminal[OF b1 b2 b3] p(2)
    by (simp add: phase_of_def settled_at_def)
  from a1 a2 a3 b1 b2 p q r show ?thesis by blast
qed

end
